theory Spec2Isabelle
  imports Main "HOL-Library.Sublist"
begin

section \<open>Python string primitives used by tldr.py\<close>

text \<open>
  A Python \<open>str\<close> is modelled as a \<open>string\<close>; each \<open>char\<close> stands for the code point
  of the same number, so the model covers the code points 0 to 255. On these,
  \<open>str.isspace\<close>, \<open>str.strip\<close> and the pattern \<open>\s\<close> agree on the set below, \<open>\d\<close> is the
  ten ASCII digits, and \<open>str.splitlines\<close> breaks at the characters of \<open>is_linebreak\<close>.
\<close>

definition is_space :: "char \<Rightarrow> bool" where
  "is_space c \<longleftrightarrow> c \<in> set [CHR 0x09, CHR 0x0A, CHR 0x0B, CHR 0x0C, CHR 0x0D,
     CHR 0x1C, CHR 0x1D, CHR 0x1E, CHR 0x1F, CHR 0x20, CHR 0x85, CHR 0xA0]"

definition is_linebreak :: "char \<Rightarrow> bool" where
  "is_linebreak c \<longleftrightarrow> c \<in> set [CHR 0x0A, CHR 0x0B, CHR 0x0C, CHR 0x0D,
     CHR 0x1C, CHR 0x1D, CHR 0x1E, CHR 0x85]"

definition is_digit :: "char \<Rightarrow> bool" where
  "is_digit c \<longleftrightarrow> c \<in> set ''0123456789''"

text \<open>\<open>str.lower\<close>: the upper-case letters A-Z and the Latin-1 capitals move up by 32.\<close>

definition lower_char :: "char \<Rightarrow> char" where
  "lower_char c =
     (let n = (of_char c :: nat)
      in if (65 \<le> n \<and> n \<le> 90) \<or> (192 \<le> n \<and> n \<le> 214) \<or> (216 \<le> n \<and> n \<le> 222)
         then char_of (n + 32) else c)"

definition lower :: "string \<Rightarrow> string" where
  "lower s = map lower_char s"

definition lstrip :: "string \<Rightarrow> string" where
  "lstrip s = dropWhile is_space s"

definition rstrip :: "string \<Rightarrow> string" where
  "rstrip s = rev (dropWhile is_space (rev s))"

definition strip :: "string \<Rightarrow> string" where
  "strip s = lstrip (rstrip s)"

text \<open>
  \<open>str.splitlines()\<close>: a line ends at a line break, \<open>\r\n\<close> counts as one break, and
  no empty line is reported after a final break. The accumulator holds the current
  line reversed.
\<close>

fun split_acc :: "string \<Rightarrow> string \<Rightarrow> string list" where
  "split_acc acc [] = (if acc = [] then [] else [rev acc])"
| "split_acc acc [c] =
     (if is_linebreak c then [rev acc] else [rev (c # acc)])"
| "split_acc acc (c # d # cs) =
     (if c = CHR 0x0D \<and> d = CHR 0x0A then rev acc # split_acc [] cs
      else if is_linebreak c then rev acc # split_acc [] (d # cs)
      else split_acc (c # acc) (d # cs))"

definition splitlines :: "string \<Rightarrow> string list" where
  "splitlines s = split_acc [] s"

text \<open>\<open>" ".join(lines)\<close>.\<close>

fun join_space :: "string list \<Rightarrow> string" where
  "join_space [] = []"
| "join_space [l] = l"
| "join_space (l # m # ls) = l @ CHR '' '' # join_space (m # ls)"

text \<open>\<open>re.sub(r"\s+", " ", p)\<close>: every maximal run of whitespace becomes one space.\<close>

function collapse_ws :: "string \<Rightarrow> string" where
  "collapse_ws [] = []"
| "collapse_ws (c # cs) =
     (if is_space c then CHR '' '' # collapse_ws (dropWhile is_space cs)
      else c # collapse_ws cs)"
  by pat_completeness auto
termination
  by (relation "measure length") (auto simp: length_dropWhile_le less_Suc_eq_le)

definition flatten :: "string list \<Rightarrow> string" where
  "flatten ls = strip (collapse_ws (join_space ls))"

section \<open>enforce\_character\_limit\<close>

text \<open>The slice \<open>text[:m]\<close>; a negative \<open>m\<close> counts from the end of the text.\<close>

definition slice_to :: "string \<Rightarrow> int \<Rightarrow> string" where
  "slice_to s m = (if m < 0 then take (nat (int (length s) + m)) s else take (nat m) s)"

definition endswith_period :: "string \<Rightarrow> bool" where
  "endswith_period s \<longleftrightarrow> (case rev s of [] \<Rightarrow> False | c # _ \<Rightarrow> c = CHR ''.'')"

definition enforce_character_limit :: "string \<Rightarrow> int \<Rightarrow> string" where
  "enforce_character_limit text max_chars =
     (if int (length text) \<le> max_chars then text
      else let truncated = rstrip (slice_to text max_chars)
           in if \<not> endswith_period truncated then truncated @ ''.'' else truncated)"

section \<open>remove\_disclaimers\_and\_mentions\<close>

definition marker_keywords :: "string list" where
  "marker_keywords = [''rewrite'', ''rewriting'', ''disclaimer'', ''the article'']"

text \<open>The test of the loop body: \<open>any(kw in lower_line for kw in [...])\<close>.\<close>

definition mentions_keyword :: "string \<Rightarrow> bool" where
  "mentions_keyword line =
     (let lower_line = strip (lower line)
      in list_ex (\<lambda>kw. sublist kw lower_line) marker_keywords)"

definition remove_disclaimers_and_mentions :: "string \<Rightarrow> string" where
  "remove_disclaimers_and_mentions text =
     (let lines = splitlines text;
          cleaned_lines = filter (\<lambda>line. \<not> mentions_keyword line) lines
      in flatten cleaned_lines)"

section \<open>strip\_bullet\_points\<close>

text \<open>
  The pattern is \<open>^(\*|-|\d+\.)\s?|\d+\)\s?|^```\<close>: three alternatives, of which the
  first and the third are anchored at the start of the string and the second is not.
  Each matcher returns the text behind the match, or \<open>None\<close>.
\<close>

definition opt_space :: "string \<Rightarrow> string" where
  "opt_space s = (case s of [] \<Rightarrow> [] | c # cs \<Rightarrow> if is_space c then cs else s)"

definition match_bullet :: "string \<Rightarrow> string option" where
  "match_bullet s =
     (case s of [] \<Rightarrow> None
      | c # cs \<Rightarrow>
          if c = CHR ''*'' \<or> c = CHR ''-'' then Some (opt_space cs)
          else if is_digit c then
            (case dropWhile is_digit cs of [] \<Rightarrow> None
             | d # ds \<Rightarrow> if d = CHR ''.'' then Some (opt_space ds) else None)
          else None)"

definition match_enum :: "string \<Rightarrow> string option" where
  "match_enum s =
     (case s of [] \<Rightarrow> None
      | c # cs \<Rightarrow>
          if is_digit c then
            (case dropWhile is_digit cs of [] \<Rightarrow> None
             | d # ds \<Rightarrow> if d = CHR '')'' then Some (opt_space ds) else None)
          else None)"

definition match_fence :: "string \<Rightarrow> string option" where
  "match_fence s = (if take 3 s = ''```'' then Some (drop 3 s) else None)"

text \<open>
  \<open>re.sub\<close> behind the start of the string: only the unanchored alternative can
  match; a character at which nothing matches is copied.
\<close>

function scan_enum :: "string \<Rightarrow> string" where
  "scan_enum [] = []"
| "scan_enum (c # cs) =
     (case match_enum (c # cs) of
        Some rest \<Rightarrow> scan_enum rest
      | None \<Rightarrow> c # scan_enum cs)"
  by pat_completeness auto
termination
proof (relation "measure length")
  fix c cs rest
  assume "match_enum (c # cs) = Some rest"
  then obtain d ds where dw: "dropWhile is_digit cs = d # ds" and r: "rest = opt_space ds"
    by (auto simp: match_enum_def split: list.splits if_splits)
  have "length (d # ds) \<le> length cs"
    using length_dropWhile_le [of is_digit cs] dw by simp
  moreover have "length (opt_space ds) \<le> length ds"
    by (cases ds) (auto simp: opt_space_def)
  ultimately show "(rest, c # cs) \<in> measure length"
    by (simp add: r)
qed simp_all

text \<open>\<open>re.sub(bullet_pattern, "", s)\<close>: at the start the alternatives are tried in order.\<close>

definition sub_bullet_pattern :: "string \<Rightarrow> string" where
  "sub_bullet_pattern s =
     (case match_bullet s of
        Some rest \<Rightarrow> scan_enum rest
      | None \<Rightarrow>
          (case match_enum s of
             Some rest \<Rightarrow> scan_enum rest
           | None \<Rightarrow>
               (case match_fence s of
                  Some rest \<Rightarrow> scan_enum rest
                | None \<Rightarrow> (case s of [] \<Rightarrow> [] | c # cs \<Rightarrow> c # scan_enum cs))))"

definition strip_bullet_points :: "string \<Rightarrow> string" where
  "strip_bullet_points text =
     (let lines = splitlines text;
          cleaned_lines = filter (\<lambda>new_line. new_line \<noteq> [])
                            (map (\<lambda>line. sub_bullet_pattern (strip line)) lines)
      in flatten cleaned_lines)"

section \<open>The completion service\<close>

text \<open>
  \<open>subprocess.run\<close> is the injected collaborator: from the state of the outside world,
  the argument vector and the standard input it yields a completed process and the
  next state of the world. The session records every invocation and every line
  printed.
\<close>

record completed_process =
  returncode :: int
  stdout :: string
  stderr :: string

type_synonym 'w subprocess = "'w \<Rightarrow> string list \<Rightarrow> string \<Rightarrow> completed_process \<times> 'w"

record 'w session =
  world :: 'w
  calls :: "(string list \<times> string) list"
  console :: "string list"

datatype failure = SystemExit int

definition llama_run ::
  "'w subprocess \<Rightarrow> string \<Rightarrow> string \<Rightarrow> 'w session \<Rightarrow> (failure + string) \<times> 'w session" where
  "llama_run run model_name prompt st =
     (let args = [''ollama'', ''run'', model_name];
          (result, w) = run (world st) args prompt;
          st1 = st\<lparr>world := w, calls := calls st @ [(args, prompt)]\<rparr>
      in if returncode result \<noteq> 0
         then (Inl (SystemExit 1),
               st1\<lparr>console := console st1 @ [''Error running ollama command: '' @ stderr result]\<rparr>)
         else (Inr (strip (stdout result)), st1))"

section \<open>The two prompts\<close>

text \<open>The decimal text of an integer, as an f-string formats it.\<close>

definition digit_char :: "nat \<Rightarrow> char" where
  "digit_char n = char_of (48 + n)"

fun digits_of :: "nat \<Rightarrow> string" where
  "digits_of n = (if n < 10 then [digit_char n] else digits_of (n div 10) @ [digit_char (n mod 10)])"

declare digits_of.simps [simp del]

definition str_int :: "int \<Rightarrow> string" where
  "str_int i = (if i < 0 then CHR ''-'' # digits_of (nat (- i)) else digits_of (nat i))"

definition prompt_1 :: "string \<Rightarrow> int \<Rightarrow> string" where
  "prompt_1 main_text max_chars =
     ''Produce a concise, single-paragraph TLDR of the text below in under '' @ str_int max_chars
       @ '' characters. ''
     @ ''Do not include bullet points, enumerations, disclaimers, code listings, or references to rewriting. ''
     @ ''Simply provide the gist in plain text:'' @ [CHR 0x0A, CHR 0x0A]
     @ main_text @ [CHR 0x0A, CHR 0x0A]
     @ ''Summary:''"

definition prompt_2 :: "string \<Rightarrow> int \<Rightarrow> string" where
  "prompt_2 first_pass_output max_chars =
     ''Rewrite the following text into a single paragraph under '' @ str_int max_chars
       @ '' characters. ''
     @ ''Remove any bullet points, enumerations, disclaimers, code listings, or references to rewriting/the article. ''
     @ ''Do not apologize or explain. Just produce the final summary:'' @ [CHR 0x0A, CHR 0x0A]
     @ first_pass_output @ [CHR 0x0A, CHR 0x0A]
     @ ''Final summary:''"

definition pass_one_summary ::
  "'w subprocess \<Rightarrow> string \<Rightarrow> int \<Rightarrow> string \<Rightarrow> 'w session \<Rightarrow> (failure + string) \<times> 'w session" where
  "pass_one_summary run main_text max_chars model_name st =
     llama_run run model_name (prompt_1 main_text max_chars) st"

definition pass_two_rewrite ::
  "'w subprocess \<Rightarrow> string \<Rightarrow> int \<Rightarrow> string \<Rightarrow> 'w session \<Rightarrow> (failure + string) \<times> 'w session" where
  "pass_two_rewrite run first_pass_output max_chars model_name st =
     llama_run run model_name (prompt_2 first_pass_output max_chars) st"

section \<open>summarize\_text\_with\_llama\<close>

text \<open>
  \<open>re.search(r"(\*|-|\d+\.)", s)\<close>, read as a truth value: the pattern matches at
  some position of the text.
\<close>

definition match_inline :: "string \<Rightarrow> bool" where
  "match_inline s =
     (case s of [] \<Rightarrow> False
      | c # cs \<Rightarrow>
          c = CHR ''*'' \<or> c = CHR ''-'' \<or>
          (is_digit c \<and> (case dropWhile is_digit cs of [] \<Rightarrow> False | d # _ \<Rightarrow> d = CHR ''.'')))"

fun has_bullets :: "string \<Rightarrow> bool" where
  "has_bullets [] = False"
| "has_bullets (c # cs) = (match_inline (c # cs) \<or> has_bullets cs)"

definition summarize_text_with_llama ::
  "'w subprocess \<Rightarrow> string \<Rightarrow> int \<Rightarrow> string \<Rightarrow> 'w session \<Rightarrow> (failure + string) \<times> 'w session" where
  "summarize_text_with_llama run text max_chars model_name st =
     (case pass_one_summary run text max_chars model_name st of
        (Inl e, st1) \<Rightarrow> (Inl e, st1)
      | (Inr first_pass, st1) \<Rightarrow>
          let pass_one_cleaned = remove_disclaimers_and_mentions first_pass
          in if has_bullets pass_one_cleaned then
               (case pass_two_rewrite run pass_one_cleaned max_chars model_name st1 of
                  (Inl e, st2) \<Rightarrow> (Inl e, st2)
                | (Inr second_pass, st2) \<Rightarrow>
                    let second_pass_cleaned = remove_disclaimers_and_mentions second_pass;
                        final_text = strip_bullet_points second_pass_cleaned
                    in (Inr (enforce_character_limit final_text max_chars), st2))
             else
               let final_text = strip_bullet_points pass_one_cleaned
               in (Inr (enforce_character_limit final_text max_chars), st1))"

text \<open>
  A scripted completion service for the worked examples: the world is the list of
  outputs still to be produced; each invocation pops one and exits with status 0, and
  an exhausted script exits with status 1.
\<close>

definition scripted :: "string list subprocess" where
  "scripted w args input =
     (case w of
        [] \<Rightarrow> (\<lparr>returncode = 1, stdout = [], stderr = ''no output left''\<rparr>, [])
      | out # rest \<Rightarrow> (\<lparr>returncode = 0, stdout = out, stderr = []\<rparr>, rest))"

definition fresh :: "'w \<Rightarrow> 'w session" where
  "fresh w = \<lparr>world = w, calls = [], console = []\<rparr>"

section \<open>Predicates for stating the properties\<close>

text \<open>
  \<open>adjacent R s\<close>: some two neighbouring characters of \<open>s\<close> are related by \<open>R\<close>.
  With \<open>two_spaces\<close> this is a run of two or more whitespace characters; with
  \<open>digit_then x\<close> it is a digit directly followed by the character \<open>x\<close>.
\<close>

fun adjacent :: "(char \<Rightarrow> char \<Rightarrow> bool) \<Rightarrow> string \<Rightarrow> bool" where
  "adjacent R [] = False"
| "adjacent R [c] = False"
| "adjacent R (c # d # cs) = (R c d \<or> adjacent R (d # cs))"

definition two_spaces :: "char \<Rightarrow> char \<Rightarrow> bool" where
  "two_spaces c d \<longleftrightarrow> is_space c \<and> is_space d"

definition digit_then :: "char \<Rightarrow> char \<Rightarrow> char \<Rightarrow> bool" where
  "digit_then x c d \<longleftrightarrow> is_digit c \<and> d = x"

definition plain_spaces :: "string \<Rightarrow> bool" where
  "plain_spaces s \<longleftrightarrow> list_all (\<lambda>c. is_space c \<longrightarrow> c = CHR '' '') s"

definition trimmed :: "string \<Rightarrow> bool" where
  "trimmed s \<longleftrightarrow> (case s of [] \<Rightarrow> True | c # _ \<Rightarrow> \<not> is_space c \<and> \<not> is_space (last s))"

definition tidy :: "string \<Rightarrow> bool" where
  "tidy s \<longleftrightarrow> plain_spaces s \<and> \<not> adjacent two_spaces s \<and> trimmed s"

text \<open>
  A text begins with a recognised marker when one of the three alternatives of the
  bullet pattern matches at its start.
\<close>

definition begins_with_marker :: "string \<Rightarrow> bool" where
  "begins_with_marker s \<longleftrightarrow> match_bullet s \<noteq> None \<or> match_enum s \<noteq> None \<or> match_fence s \<noteq> None"

text \<open>The text behind the leading marker: the first alternative that matches at the start.\<close>

definition leading_marker_rest :: "string \<Rightarrow> string option" where
  "leading_marker_rest s =
     (case match_bullet s of
        Some rest \<Rightarrow> Some rest
      | None \<Rightarrow> (case match_enum s of Some rest \<Rightarrow> Some rest | None \<Rightarrow> match_fence s))"

text \<open>
  The first word of a text: its first maximal run of characters that are not
  whitespace. The text behind the leading marker of a line is the line itself when it
  has no marker. A line carries a single marker when that text does not begin, after
  whitespace, with a further marker and its first word holds no digit directly
  followed by a closing parenthesis.
\<close>

definition first_word :: "string \<Rightarrow> string" where
  "first_word s = takeWhile (\<lambda>c. \<not> is_space c) (dropWhile is_space s)"

definition behind_marker :: "string \<Rightarrow> string" where
  "behind_marker s = (case leading_marker_rest s of Some rest \<Rightarrow> rest | None \<Rightarrow> s)"

definition single_marker :: "string \<Rightarrow> bool" where
  "single_marker s \<longleftrightarrow>
     \<not> begins_with_marker (lstrip (behind_marker s)) \<and>
     \<not> adjacent (digit_then CHR '')'') (first_word (behind_marker s))"

text \<open>
  The lines of a text as the specification words them, "split by newline": the pieces
  between newline characters.
\<close>

fun newline_acc :: "string \<Rightarrow> string \<Rightarrow> string list" where
  "newline_acc acc [] = [rev acc]"
| "newline_acc acc (c # cs) =
     (if c = CHR 0x0A then rev acc # newline_acc [] cs else newline_acc (c # acc) cs)"

definition newline_lines :: "string \<Rightarrow> string list" where
  "newline_lines s = newline_acc [] s"

text \<open>
  The wording of the second-pass trigger: the text contains an asterisk, a hyphen, or
  a digit directly followed by a period.
\<close>

definition marker_anywhere :: "string \<Rightarrow> bool" where
  "marker_anywhere s \<longleftrightarrow>
     CHR ''*'' \<in> set s \<or> CHR ''-'' \<in> set s \<or> adjacent (digit_then CHR ''.'') s"

text \<open>The invocations that one run of the pipeline adds to the session.\<close>

definition new_calls ::
  "'w subprocess \<Rightarrow> string \<Rightarrow> int \<Rightarrow> string \<Rightarrow> 'w session \<Rightarrow> (string list \<times> string) list" where
  "new_calls run inp max_chars model_name st =
     drop (length (calls st)) (calls (snd (summarize_text_with_llama run inp max_chars model_name st)))"

section \<open>Inputs of the worked examples\<close>

definition messy_first :: string where
  "messy_first = ''* one  '' @ [CHR 0x0A, CHR 0x09] @ ''- two''"
definition messy_second :: string where
  "messy_second = ''  Final   text '' @ [CHR 0x0D, CHR 0x0A] @ '' spread over lines and far too long''"


definition marked_lines :: string where
  "marked_lines = ''Here is a REWRITE:'' @ [CHR 0x0A] @ ''  About The Article  ''
     @ [CHR 0x0D, CHR 0x0A] @ ''Disclaimer: none''"

text \<open>The module constants, and the texts of the examples.\<close>

definition DEFAULT_MODEL_NAME :: string where
  "DEFAULT_MODEL_NAME = ''llama3.2-vision:11b''"

definition DEFAULT_MAX_CHARS :: int where
  "DEFAULT_MAX_CHARS = 500"

definition article :: string where
  "article = ''Title'' @ [CHR 0x0A] @ ''Body paragraph one. Body paragraph two.''"

definition dash_list :: string where
  "dash_list = ''- one'' @ [CHR 0x0A] @ ''- two''"

definition disclaimed_list :: string where
  "disclaimed_list = ''rewrite - one'' @ [CHR 0x0A] @ ''- two rewrite''"

definition first_output :: string where
  "first_output = ''- Summary point A'' @ [CHR 0x0A] @ ''- Summary point B about something long''"

definition second_output :: string where
  "second_output = ''Summary about A and B.''"

definition tab_broken :: string where
  "tab_broken = ''rewrite a'' @ [CHR 0x0B] @ ''keep'' @ [CHR 0x0A] @ ''the article''"

definition inline_list :: string where
  "inline_list = ''* first item'' @ [CHR 0x0A] @ ''2) second (see 1) above)''
     @ [CHR 0x0A] @ ''plain 3) text''"

section \<open>Facts about the primitives\<close>

lemma length_rstrip_le: "length (rstrip s) \<le> length s"
  unfolding rstrip_def using length_dropWhile_le [of is_space "rev s"] by simp

lemma rstrip_idem: "rstrip (rstrip s) = rstrip s"
  unfolding rstrip_def by simp

lemma length_slice_to_pos: "0 \<le> m \<Longrightarrow> int (length (slice_to s m)) \<le> m"
  by (simp add: slice_to_def)

lemma adjacent_Cons:
  "adjacent R (c # s) \<longleftrightarrow> (s \<noteq> [] \<and> R c (hd s)) \<or> adjacent R s"
  by (cases s) auto

lemma adjacent_append:
  "adjacent R (xs @ ys) \<longleftrightarrow>
     adjacent R xs \<or> adjacent R ys \<or> (xs \<noteq> [] \<and> ys \<noteq> [] \<and> R (last xs) (hd ys))"
proof (induction xs)
  case Nil
  then show ?case by simp
next
  case (Cons x xs)
  show ?case
  proof (cases xs)
    case Nil
    then show ?thesis by (auto simp: adjacent_Cons)
  next
    case (Cons y zs)
    with Cons.IH show ?thesis by auto
  qed
qed

lemma adjacent_takeD: "adjacent R (take n s) \<Longrightarrow> adjacent R s"
  using adjacent_append [of R "take n s" "drop n s"] by simp

lemma adjacent_dropD: "adjacent R (drop n s) \<Longrightarrow> adjacent R s"
  using adjacent_append [of R "take n s" "drop n s"] by simp

lemma adjacent_dropWhileD: "adjacent R (dropWhile P s) \<Longrightarrow> adjacent R s"
  using adjacent_append [of R "takeWhile P s" "dropWhile P s"] by simp

lemma rstrip_decomp: "s = rstrip s @ rev (takeWhile is_space (rev s))"
proof -
  have "rstrip s @ rev (takeWhile is_space (rev s))
        = rev (takeWhile is_space (rev s) @ dropWhile is_space (rev s))"
    by (simp only: rstrip_def rev_append)
  also have "\<dots> = s"
    by (simp only: takeWhile_dropWhile_id rev_rev_ident)
  finally show ?thesis by simp
qed

lemma adjacent_rstripD: "adjacent R (rstrip s) \<Longrightarrow> adjacent R s"
  using adjacent_append [of R "rstrip s" "rev (takeWhile is_space (rev s))"] rstrip_decomp [of s]
  by simp

lemma adjacent_stripD: "adjacent R (strip s) \<Longrightarrow> adjacent R s"
  unfolding strip_def lstrip_def by (blast dest: adjacent_dropWhileD adjacent_rstripD)

lemma rstrip_last: "rstrip s \<noteq> [] \<Longrightarrow> \<not> is_space (last (rstrip s))"
proof -
  assume "rstrip s \<noteq> []"
  then have ne: "dropWhile is_space (rev s) \<noteq> []" by (simp add: rstrip_def)
  then have "\<not> is_space (hd (dropWhile is_space (rev s)))" by (rule hd_dropWhile)
  with ne show ?thesis by (simp add: rstrip_def last_rev)
qed


lemma lstrip_id: "s = [] \<or> \<not> is_space (hd s) \<Longrightarrow> lstrip s = s"
  by (cases s) (auto simp: lstrip_def)

lemma strip_trimmed: "trimmed (strip s)"
proof (cases "strip s")
  case Nil
  then show ?thesis by (simp add: trimmed_def)
next
  case (Cons c cs)
  have ne: "dropWhile is_space (rstrip s) \<noteq> []" using Cons by (simp add: strip_def lstrip_def)
  then have h: "\<not> is_space (hd (strip s))"
    unfolding strip_def lstrip_def by (rule hd_dropWhile)
  have rne: "rstrip s \<noteq> []" using ne by auto
  have "last (strip s) = last (rstrip s)"
    using ne unfolding strip_def lstrip_def
    by (metis takeWhile_dropWhile_id last_appendR)
  with rstrip_last [OF rne] h Cons show ?thesis by (simp add: trimmed_def)
qed


lemma set_rstrip: "set (rstrip s) \<subseteq> set s"
  unfolding rstrip_def using set_dropWhileD [of _ is_space "rev s"] by auto

lemma set_strip: "set (strip s) \<subseteq> set s"
  unfolding strip_def lstrip_def using set_rstrip [of s] set_dropWhileD [of _ is_space "rstrip s"]
  by blast

lemma collapse_ws_hd:
  "collapse_ws s \<noteq> [] \<Longrightarrow> hd (collapse_ws s) = (if is_space (hd s) then CHR '' '' else hd s)"
  by (cases s) auto

lemma collapse_ws_Nil: "collapse_ws s = [] \<longleftrightarrow> s = []"
  by (cases s) auto

lemma collapse_ws_plain: "plain_spaces (collapse_ws s)"
  by (induction s rule: collapse_ws.induct) (auto simp: plain_spaces_def)

lemma collapse_ws_single: "\<not> adjacent two_spaces (collapse_ws s)"
proof (induction s rule: collapse_ws.induct)
  case 1
  then show ?case by simp
next
  case (2 c cs)
  show ?case
  proof (cases "is_space c")
    case True
    let ?r = "dropWhile is_space cs"
    have "?r \<noteq> [] \<Longrightarrow> \<not> is_space (hd (collapse_ws ?r))"
      using hd_dropWhile [of is_space cs] by (simp add: collapse_ws_hd collapse_ws_Nil)
    with 2 True show ?thesis
      by (auto simp: adjacent_Cons two_spaces_def collapse_ws_Nil)
  next
    case False
    with 2 show ?thesis by (auto simp: adjacent_Cons two_spaces_def)
  qed
qed


lemma plain_spaces_subset: "plain_spaces s \<Longrightarrow> set t \<subseteq> set s \<Longrightarrow> plain_spaces t"
  by (auto simp: plain_spaces_def list_all_iff)

lemma flatten_plain: "plain_spaces (flatten ls)"
  unfolding flatten_def using collapse_ws_plain set_strip by (rule plain_spaces_subset)

lemma flatten_single: "\<not> adjacent two_spaces (flatten ls)"
  unfolding flatten_def using collapse_ws_single by (blast dest: adjacent_stripD)

lemma flatten_trimmed: "trimmed (flatten ls)"
  unfolding flatten_def by (rule strip_trimmed)


lemma flatten_Nil: "flatten [] = []"
  by (simp add: flatten_def strip_def lstrip_def rstrip_def)

lemma flatten_tidy: "tidy (flatten ls)"
  by (simp add: tidy_def flatten_plain flatten_single flatten_trimmed)

lemma not_space_period: "\<not> is_space CHR ''.''"
  by (simp add: is_space_def)

lemma enforce_tidy:
  assumes P: "tidy P"
  shows "tidy (enforce_character_limit P b)"
proof (cases "int (length P) \<le> b")
  case True
  with P show ?thesis by (simp add: enforce_character_limit_def)
next
  case False
  define t where "t = rstrip (slice_to P b)"
  have "\<exists>k. slice_to P b = take k P" unfolding slice_to_def by (cases "b < 0") auto
  then obtain k where k: "slice_to P b = take k P" ..
  have sub: "set t \<subseteq> set P"
    unfolding t_def k using set_rstrip [of "take k P"] set_take_subset [of k P] by blast
  have pl: "plain_spaces t" using P sub by (auto simp: tidy_def intro: plain_spaces_subset)
  have na: "\<not> adjacent two_spaces t"
    using P unfolding t_def k tidy_def by (blast dest: adjacent_rstripD adjacent_takeD)
  have tr: "trimmed t"
  proof (cases t)
    case Nil
    then show ?thesis by (simp add: trimmed_def)
  next
    case (Cons c cs)
    have "take k P = t @ rev (takeWhile is_space (rev (take k P)))"
      unfolding t_def k by (rule rstrip_decomp)
    then have "P = t @ (rev (takeWhile is_space (rev (take k P))) @ drop k P)"
      by (metis append_assoc append_take_drop_id)
    with Cons obtain r where "P = c # r" by simp
    with P have "\<not> is_space c" by (simp add: tidy_def trimmed_def)
    moreover have "\<not> is_space (last t)"
      unfolding t_def by (rule rstrip_last) (use Cons t_def in simp)
    ultimately show ?thesis using Cons by (simp add: trimmed_def)
  qed
  show ?thesis
  proof (cases "endswith_period t")
    case True
    with False have "enforce_character_limit P b = t"
      by (simp add: enforce_character_limit_def t_def)
    with pl na tr show ?thesis by (simp add: tidy_def)
  next
    case np: False
    with False have e: "enforce_character_limit P b = t @ ''.''"
      by (simp add: enforce_character_limit_def t_def)
    have "plain_spaces (t @ ''.'')" using pl by (simp add: plain_spaces_def not_space_period)
    moreover have "\<not> adjacent two_spaces (t @ ''.'')"
      using na by (simp add: adjacent_append two_spaces_def not_space_period)
    moreover have "trimmed (t @ ''.'')"
      using tr by (cases t) (simp_all add: trimmed_def not_space_period)
    ultimately show ?thesis unfolding e by (simp add: tidy_def)
  qed
qed

lemma strip_bullet_points_tidy: "tidy (strip_bullet_points x)"
  by (simp add: strip_bullet_points_def Let_def flatten_tidy)

lemma summarize_result:
  assumes "fst (summarize_text_with_llama run inp b m st) = Inr s"
  shows "\<exists>x. s = enforce_character_limit (strip_bullet_points x) b"
  using assms unfolding summarize_text_with_llama_def Let_def
  by (auto split: prod.splits sum.splits if_splits)

lemma tidy_claim:
  assumes "tidy s"
  shows "CHR 0x0A \<notin> set s \<and> \<not> adjacent two_spaces s \<and>
         (s \<noteq> [] \<longrightarrow> \<not> is_space (hd s) \<and> \<not> is_space (last s))"
proof -
  have "is_space (CHR 0x0A)" by (simp add: is_space_def)
  then have "CHR 0x0A \<notin> set s"
    using assms by (auto simp: tidy_def plain_spaces_def list_all_iff)
  moreover have "s \<noteq> [] \<longrightarrow> \<not> is_space (hd s) \<and> \<not> is_space (last s)"
    using assms by (cases s) (simp_all add: tidy_def trimmed_def)
  ultimately show ?thesis using assms by (simp add: tidy_def)
qed

section \<open>Facts about the bullet pattern\<close>

lemma opt_space_length: "length (opt_space s) \<le> length s"
  by (cases s) (auto simp: opt_space_def)

lemma match_enum_SomeD:
  assumes "match_enum s = Some r"
  shows "\<exists>c cs ds. s = c # cs \<and> is_digit c \<and> dropWhile is_digit cs = CHR '')'' # ds \<and> r = opt_space ds"
  using assms by (auto simp: match_enum_def split: list.splits if_splits)

lemma match_enum_shorter: "match_enum s = Some r \<Longrightarrow> length r < length s"
proof -
  assume "match_enum s = Some r"
  from match_enum_SomeD [OF this] obtain c cs ds
    where s: "s = c # cs" and dw: "dropWhile is_digit cs = CHR '')'' # ds" and r: "r = opt_space ds"
    by blast
  have "length (CHR '')'' # ds) \<le> length cs"
    using length_dropWhile_le [of is_digit cs] dw by simp
  with opt_space_length [of ds] show ?thesis by (simp add: s r)
qed
















lemma linebreak_cr: "is_linebreak (CHR 0x0D)"
  by (simp add: is_linebreak_def)







lemma match_bullet_shorter: "match_bullet s = Some r \<Longrightarrow> length r < length s"
proof -
  assume m: "match_bullet s = Some r"
  then obtain c cs where s: "s = c # cs" by (cases s) (auto simp: match_bullet_def)
  show ?thesis
  proof (cases "c = CHR ''*'' \<or> c = CHR ''-''")
    case True
    with m s have "r = opt_space cs" by (auto simp: match_bullet_def)
    with opt_space_length [of cs] s show ?thesis by simp
  next
    case False
    with m s obtain ds where dw: "dropWhile is_digit cs = CHR ''.'' # ds" and r: "r = opt_space ds"
      by (auto simp: match_bullet_def split: if_splits list.splits)
    have "length (CHR ''.'' # ds) \<le> length cs"
      using length_dropWhile_le [of is_digit cs] dw by simp
    with opt_space_length [of ds] show ?thesis by (simp add: s r)
  qed
qed

lemma match_fence_shorter: "match_fence s = Some r \<Longrightarrow> length r < length s"
proof -
  assume m: "match_fence s = Some r"
  then have t: "take 3 s = ''```''" and r: "r = drop 3 s"
    by (auto simp: match_fence_def split: if_splits)
  from t have "length (take 3 s) = 3" by simp
  then have "3 \<le> length s" by (simp add: min_def split: if_splits)
  then show ?thesis by (simp add: r)
qed







lemma subseq_trans: "subseq a b \<Longrightarrow> subseq b c \<Longrightarrow> subseq a c"
  by (rule subseq_order.order_trans)

lemma suffix_subseq: "suffix a b \<Longrightarrow> subseq a b"
  by (simp add: sublist_imp_subseq)

lemma suffix_opt_space: "suffix (opt_space s) s"
  by (cases s) (auto simp: opt_space_def suffix_ConsI)

lemma match_enum_suffix: "match_enum s = Some r \<Longrightarrow> suffix r s"
proof -
  assume "match_enum s = Some r"
  from match_enum_SomeD [OF this] obtain c cs ds
    where s: "s = c # cs" and dw: "dropWhile is_digit cs = CHR '')'' # ds" and r: "r = opt_space ds"
    by blast
  have "suffix (CHR '')'' # ds) cs" using suffix_dropWhile [of is_digit cs] dw by simp
  then have "suffix ds cs" by (rule suffix_ConsD)
  with suffix_opt_space [of ds] have "suffix r cs" unfolding r by (rule suffix_order.trans)
  then show ?thesis unfolding s by (rule suffix_ConsI)
qed

lemma scan_enum_subseq: "subseq (scan_enum s) s"
proof (induction s rule: scan_enum.induct)
  case 1
  then show ?case by simp
next
  case (2 c cs)
  show ?case
  proof (cases "match_enum (c # cs)")
    case None
    with 2(1) [OF None] show ?thesis by simp
  next
    case (Some rest)
    from match_enum_suffix [OF Some] have "subseq rest (c # cs)" by (rule suffix_subseq)
    with 2(2) [OF Some] have "subseq (scan_enum rest) (c # cs)" by (rule subseq_trans)
    with Some show ?thesis by simp
  qed
qed

lemma sub_bullet_pattern_rest:
  "leading_marker_rest s = Some r \<Longrightarrow> sub_bullet_pattern s = scan_enum r"
  by (auto simp: leading_marker_rest_def sub_bullet_pattern_def split: option.splits)

lemma leading_marker_rest_shorter: "leading_marker_rest s = Some r \<Longrightarrow> length r < length s"
  by (auto simp: leading_marker_rest_def split: option.splits
      dest: match_bullet_shorter match_enum_shorter match_fence_shorter)

lemma begins_with_marker_rest: "begins_with_marker s \<longleftrightarrow> leading_marker_rest s \<noteq> None"
  by (auto simp: begins_with_marker_def leading_marker_rest_def split: option.splits)

section \<open>Facts about the pipeline\<close>

lemma digits_then_adjacent:
  assumes c: "is_digit c" and dw: "dropWhile is_digit cs = x # ds"
  shows "adjacent (digit_then x) (c # cs)"
proof -
  have "cs = takeWhile is_digit cs @ x # ds"
    using takeWhile_dropWhile_id [of is_digit cs] dw by simp
  then have split: "c # cs = (c # takeWhile is_digit cs) @ (x # ds)" by simp
  have "last (c # takeWhile is_digit cs) \<in> set (c # takeWhile is_digit cs)"
    by (rule last_in_set) simp
  then have "is_digit (last (c # takeWhile is_digit cs))"
    using c by (auto dest: set_takeWhileD)
  then have "adjacent (digit_then x) ((c # takeWhile is_digit cs) @ (x # ds))"
    unfolding adjacent_append by (simp add: digit_then_def)
  with split show ?thesis by simp
qed

lemma not_digit_period: "\<not> is_digit CHR ''.''"
  by (simp add: is_digit_def)

lemma match_inline_iff:
  "match_inline (c # cs) \<longleftrightarrow>
     c = CHR ''*'' \<or> c = CHR ''-'' \<or> (cs \<noteq> [] \<and> digit_then CHR ''.'' c (hd cs))
     \<or> (match_inline (c # cs) \<and> adjacent (digit_then CHR ''.'') cs)"
proof (cases "c = CHR ''*'' \<or> c = CHR ''-''")
  case True
  then show ?thesis by (auto simp: match_inline_def)
next
  case False
  show ?thesis
  proof (cases cs)
    case Nil
    with False show ?thesis by (simp add: match_inline_def)
  next
    case (Cons d ds)
    show ?thesis
    proof (cases "is_digit d")
      case True
      have "match_inline (c # cs) \<Longrightarrow> adjacent (digit_then CHR ''.'') cs"
      proof -
        assume "match_inline (c # cs)"
        with False Cons True obtain es where "dropWhile is_digit ds = CHR ''.'' # es"
          by (auto simp: match_inline_def split: list.splits)
        from digits_then_adjacent [OF True this] Cons show ?thesis by simp
      qed
      moreover have "\<not> digit_then CHR ''.'' c d"
        using True not_digit_period by (auto simp: digit_then_def)
      ultimately show ?thesis using False Cons by auto
    next
      case nd: False
      with False Cons show ?thesis by (auto simp: match_inline_def digit_then_def)
    qed
  qed
qed

lemma has_bullets_iff: "has_bullets s \<longleftrightarrow> marker_anywhere s"
proof (induction s)
  case Nil
  then show ?case by (simp add: marker_anywhere_def)
next
  case (Cons c cs)
  have "has_bullets (c # cs) \<longleftrightarrow> match_inline (c # cs) \<or> marker_anywhere cs"
    using Cons.IH by simp
  also have "\<dots> \<longleftrightarrow> c = CHR ''*'' \<or> c = CHR ''-'' \<or> (cs \<noteq> [] \<and> digit_then CHR ''.'' c (hd cs))
       \<or> marker_anywhere cs"
    using match_inline_iff [of c cs] by (auto simp: marker_anywhere_def)
  also have "\<dots> \<longleftrightarrow> marker_anywhere (c # cs)"
    by (auto simp: marker_anywhere_def adjacent_Cons)
  finally show ?case .
qed


lemma sublist_suffix_part: "sublist l zs \<Longrightarrow> sublist l (ys @ zs)"
  by (simp add: sublist_append)

lemma split_acc_sublist: "l \<in> set (split_acc acc s) \<Longrightarrow> sublist l (rev acc @ s)"
proof (induction acc s arbitrary: l rule: split_acc.induct)
  case (1 acc)
  then show ?case by (auto split: if_splits)
next
  case (2 acc c)
  then show ?case by (auto split: if_splits)
next
  case (3 acc c d cs)
  show ?case
  proof (cases "c = CHR 0x0D \<and> d = CHR 0x0A")
    case True
    with 3(4) have "l = rev acc \<or> l \<in> set (split_acc [] cs)" by simp
    then show ?thesis
    proof
      assume "l = rev acc"
      then show ?thesis by simp
    next
      assume "l \<in> set (split_acc [] cs)"
      from 3(1) [OF True this] have "sublist l cs" by simp
      then have "sublist l ((rev acc @ [c, d]) @ cs)" by (rule sublist_suffix_part)
      then show ?thesis by simp
    qed
  next
    case False
    show ?thesis
    proof (cases "is_linebreak c")
      case True
      with False 3(4) have "l = rev acc \<or> l \<in> set (split_acc [] (d # cs))" by auto
      then show ?thesis
      proof
        assume "l = rev acc"
        then show ?thesis by simp
      next
        assume "l \<in> set (split_acc [] (d # cs))"
        from 3(2) [OF False True this] have "sublist l (d # cs)" by simp
        then have "sublist l ((rev acc @ [c]) @ d # cs)" by (rule sublist_suffix_part)
        then show ?thesis by simp
      qed
    next
      case nb: False
      with False 3(4) have "l \<in> set (split_acc (c # acc) (d # cs))" by auto
      from 3(3) [OF False nb this] show ?thesis by simp
    qed
  qed
qed

lemma sublist_trans: "sublist a b \<Longrightarrow> sublist b c \<Longrightarrow> sublist a c"
  using sublist_order.order.trans by blast

lemma linebreak_lf: "is_linebreak (CHR 0x0A)"
  by (simp add: is_linebreak_def)

lemma sublist_strip: "sublist (strip s) s"
proof -
  have "sublist (rstrip s) s"
    unfolding rstrip_def by (simp add: sublist_rev_left)
  moreover have "sublist (strip s) (rstrip s)"
    by (simp add: strip_def lstrip_def)
  ultimately show ?thesis by (rule sublist_trans [rotated])
qed

lemma mentions_keyword_whole:
  assumes m: "mentions_keyword line" and l: "sublist line fp"
  shows "list_ex (\<lambda>kw. sublist kw (lower fp)) marker_keywords"
proof -
  from m obtain kw where kw: "kw \<in> set marker_keywords" and s: "sublist kw (strip (lower line))"
    by (auto simp: mentions_keyword_def list_ex_iff)
  have "sublist (lower line) (lower fp)"
    unfolding lower_def using l by (rule map_mono_sublist)
  with sublist_strip [of "lower line"] have "sublist (strip (lower line)) (lower fp)"
    by (rule sublist_trans)
  with s have "sublist kw (lower fp)" by (rule sublist_trans)
  with kw show ?thesis by (auto simp: list_ex_iff)
qed

lemma no_keyword_keeps_lines:
  assumes "\<not> list_ex (\<lambda>kw. sublist kw (lower fp)) marker_keywords"
  shows "filter (\<lambda>line. \<not> mentions_keyword line) (splitlines fp) = splitlines fp"
proof -
  have "\<forall>line \<in> set (splitlines fp). \<not> mentions_keyword line"
  proof
    fix line assume "line \<in> set (splitlines fp)"
    then have "sublist line fp" using split_acc_sublist [of line "[]" fp] by (simp add: splitlines_def)
    with assms show "\<not> mentions_keyword line" by (blast dest: mentions_keyword_whole)
  qed
  then show ?thesis by (simp add: filter_id_conv)
qed

lemma split_acc_keeps:
  "c \<in> set acc \<or> (c \<in> set s \<and> \<not> is_linebreak c) \<Longrightarrow> \<exists>l \<in> set (split_acc acc s). c \<in> set l"
  by (induction acc s rule: split_acc.induct) (auto simp: linebreak_cr linebreak_lf)

lemma join_space_keeps: "l \<in> set ls \<Longrightarrow> set l \<subseteq> set (join_space ls)"
  by (induction ls rule: join_space.induct) auto

lemma dropWhile_keeps: "c \<in> set s \<Longrightarrow> \<not> P c \<Longrightarrow> c \<in> set (dropWhile P s)"
  by (induction s) auto

lemma collapse_ws_keeps: "c \<in> set s \<Longrightarrow> \<not> is_space c \<Longrightarrow> c \<in> set (collapse_ws s)"
proof (induction s rule: collapse_ws.induct)
  case 1
  then show ?case by simp
next
  case (2 d ds)
  show ?case
  proof (cases "is_space d")
    case True
    with 2(3,4) have "c \<in> set ds" by auto
    then have "c \<in> set (dropWhile is_space ds)" using 2(4) by (rule dropWhile_keeps)
    with 2(1) [OF True] 2(4) True show ?thesis by simp
  next
    case False
    with 2 show ?thesis by auto
  qed
qed

lemma strip_keeps: "c \<in> set s \<Longrightarrow> \<not> is_space c \<Longrightarrow> c \<in> set (strip s)"
proof -
  assume c: "c \<in> set s" and n: "\<not> is_space c"
  from c have "c \<in> set (rev s)" by simp
  then have "c \<in> set (dropWhile is_space (rev s))" using n by (rule dropWhile_keeps)
  then have "c \<in> set (rstrip s)" by (simp add: rstrip_def)
  then show ?thesis unfolding strip_def lstrip_def using n by (rule dropWhile_keeps)
qed

lemma flatten_keeps:
  assumes "l \<in> set ls" and "c \<in> set l" and "\<not> is_space c"
  shows "c \<in> set (flatten ls)"
proof -
  from assms(1,2) join_space_keeps have "c \<in> set (join_space ls)" by blast
  then show ?thesis unfolding flatten_def using assms(3)
    by (intro strip_keeps collapse_ws_keeps)
qed

lemma hyphen_survives:
  assumes nk: "\<not> list_ex (\<lambda>kw. sublist kw (lower fp)) marker_keywords"
    and h: "CHR ''-'' \<in> set fp"
  shows "has_bullets (remove_disclaimers_and_mentions fp)"
proof -
  have ns: "\<not> is_space CHR ''-''" by (simp add: is_space_def)
  have nl: "\<not> is_linebreak CHR ''-''" by (simp add: is_linebreak_def)
  from split_acc_keeps [of "CHR ''-''" "[]" fp] h nl
  obtain l where l: "l \<in> set (splitlines fp)" and c: "CHR ''-'' \<in> set l"
    by (auto simp: splitlines_def)
  have "remove_disclaimers_and_mentions fp = flatten (splitlines fp)"
    using no_keyword_keeps_lines [OF nk] by (simp add: remove_disclaimers_and_mentions_def)
  with flatten_keeps [OF l c ns] show ?thesis
    by (simp add: has_bullets_iff marker_anywhere_def)
qed

lemma llama_run_calls:
  "calls (snd (llama_run run m p st)) = calls st @ [([''ollama'', ''run'', m], p)]"
  by (simp add: llama_run_def Let_def split: prod.splits)

lemma summarize_calls:
  "calls (snd (summarize_text_with_llama run inp b m st)) =
     calls st @ ([''ollama'', ''run'', m], prompt_1 inp b) #
       (case fst (pass_one_summary run inp b m st) of
          Inl e \<Rightarrow> []
        | Inr fp \<Rightarrow>
            if has_bullets (remove_disclaimers_and_mentions fp)
            then [([''ollama'', ''run'', m], prompt_2 (remove_disclaimers_and_mentions fp) b)]
            else [])"
proof -
  obtain r1 st1 where p1: "pass_one_summary run inp b m st = (r1, st1)" by (cases "pass_one_summary run inp b m st")
  have c1: "calls st1 = calls st @ [([''ollama'', ''run'', m], prompt_1 inp b)]"
    using llama_run_calls [of run m "prompt_1 inp b" st] p1 by (simp add: pass_one_summary_def)
  show ?thesis
  proof (cases r1)
    case (Inl e)
    with p1 c1 show ?thesis by (simp add: summarize_text_with_llama_def)
  next
    case (Inr fp)
    let ?c = "remove_disclaimers_and_mentions fp"
    show ?thesis
    proof (cases "has_bullets ?c")
      case False
      with p1 c1 Inr show ?thesis by (simp add: summarize_text_with_llama_def)
    next
      case True
      obtain r2 st2 where p2: "pass_two_rewrite run ?c b m st1 = (r2, st2)"
        by (cases "pass_two_rewrite run ?c b m st1")
      have c2: "calls st2 = calls st1 @ [([''ollama'', ''run'', m], prompt_2 ?c b)]"
        using llama_run_calls [of run m "prompt_2 ?c b" st1] p2 by (simp add: pass_two_rewrite_def)
      from p1 p2 c1 c2 Inr True show ?thesis
        by (cases r2) (simp_all add: summarize_text_with_llama_def)
    qed
  qed
qed


lemma new_calls_eq:
  "new_calls run inp b m st =
     ([''ollama'', ''run'', m], prompt_1 inp b) #
       (case fst (pass_one_summary run inp b m st) of
          Inl e \<Rightarrow> []
        | Inr fp \<Rightarrow>
            if has_bullets (remove_disclaimers_and_mentions fp)
            then [([''ollama'', ''run'', m], prompt_2 (remove_disclaimers_and_mentions fp) b)]
            else [])"
  unfolding new_calls_def summarize_calls by simp

section \<open>Facts about first words and leading markers\<close>

lemma digit_not_space: "is_digit c \<Longrightarrow> \<not> is_space c"
  by (auto simp: is_digit_def is_space_def)

lemma marker_chars_not_space:
  "\<not> is_space CHR ''*''" "\<not> is_space CHR ''-''" "\<not> is_space CHR ''.''"
  "\<not> is_space CHR '')''" "\<not> is_space CHR ''`''"
  by (simp_all add: is_space_def)

lemma first_word_decomp:
  assumes p: "\<forall>c \<in> set p. is_space c" and w: "\<forall>c \<in> set w. \<not> is_space c" and ne: "w \<noteq> []"
    and t: "t = [] \<or> is_space (hd t)"
  shows "first_word (p @ w @ t) = w"
proof -
  have "dropWhile is_space (p @ w @ t) = dropWhile is_space (w @ t)"
    using p by (simp add: dropWhile_append2)
  also have "\<dots> = w @ t" using w ne by (cases w) auto
  finally have "first_word (p @ w @ t) = takeWhile (\<lambda>c. \<not> is_space c) (w @ t)"
    by (simp add: first_word_def)
  also have "\<dots> = w @ takeWhile (\<lambda>c. \<not> is_space c) t"
    using w by (simp add: takeWhile_append2)
  also have "takeWhile (\<lambda>c. \<not> is_space c) t = []" using t by (cases t) auto
  finally show ?thesis by simp
qed

lemma split_first_word:
  "s = takeWhile is_space s @ first_word s
       @ dropWhile (\<lambda>c. \<not> is_space c) (dropWhile is_space s)"
  by (simp add: first_word_def)

lemma first_word_chars: "\<forall>c \<in> set (first_word s). \<not> is_space c"
  by (auto simp: first_word_def dest: set_takeWhileD)

lemma after_first_word:
  "dropWhile (\<lambda>c. \<not> is_space c) t = [] \<or> is_space (hd (dropWhile (\<lambda>c. \<not> is_space c) t))"
  using hd_dropWhile [of "\<lambda>c. \<not> is_space c" t] by auto

lemma first_word_Nil_spaces: "first_word s = [] \<Longrightarrow> \<forall>c \<in> set s. is_space c"
proof -
  assume a: "first_word s = []"
  have "dropWhile is_space s = []"
  proof (cases "dropWhile is_space s")
    case Nil
    then show ?thesis .
  next
    case (Cons d ds)
    then have "\<not> is_space d" using hd_dropWhile [of is_space s] by simp
    with Cons a show ?thesis by (simp add: first_word_def)
  qed
  then show ?thesis by (simp add: dropWhile_eq_Nil_conv)
qed

lemma match_enum_not_digit: "\<not> is_digit c \<Longrightarrow> match_enum (c # cs) = None"
  by (simp add: match_enum_def)

lemma scan_enum_spaces:
  "\<forall>c \<in> set p. is_space c \<Longrightarrow> scan_enum (p @ s) = p @ scan_enum s"
proof (induction p)
  case Nil
  then show ?case by simp
next
  case (Cons c p)
  then have "\<not> is_digit c" using digit_not_space by auto
  then have "match_enum (c # p @ s) = None" by (rule match_enum_not_digit)
  with Cons show ?case by simp
qed

lemma match_enum_word:
  assumes w: "\<forall>c \<in> set w. \<not> is_space c" and t: "t = [] \<or> is_space (hd t)"
    and m: "match_enum (w @ t) = Some r" and ne: "w \<noteq> []"
  shows "adjacent (digit_then CHR '')'') w"
proof -
  from ne obtain c cs where wc: "w = c # cs" by (cases w) auto
  from match_enum_SomeD [OF m] wc obtain ds
    where c: "is_digit c" and dw: "dropWhile is_digit (cs @ t) = CHR '')'' # ds"
    by auto
  have tt: "dropWhile is_digit t = t"
    using t digit_not_space by (cases t) auto
  have "\<exists>es. dropWhile is_digit cs = CHR '')'' # es"
  proof (cases "\<forall>x \<in> set cs. is_digit x")
    case True
    then have "dropWhile is_digit (cs @ t) = t" using tt by (simp add: dropWhile_append2)
    with dw t marker_chars_not_space(4) show ?thesis by auto
  next
    case False
    then have n: "dropWhile is_digit cs \<noteq> []" by (simp add: dropWhile_eq_Nil_conv)
    from False have "dropWhile is_digit (cs @ t) = dropWhile is_digit cs @ t"
      by (auto simp: dropWhile_append1)
    with dw n show ?thesis by (cases "dropWhile is_digit cs") auto
  qed
  then obtain es where "dropWhile is_digit cs = CHR '')'' # es" ..
  from digits_then_adjacent [OF c this] wc show ?thesis by simp
qed

lemma scan_enum_word:
  assumes "\<forall>c \<in> set w. \<not> is_space c" and "t = [] \<or> is_space (hd t)"
    and "\<not> adjacent (digit_then CHR '')'') w"
  shows "scan_enum (w @ t) = w @ scan_enum t"
  using assms
proof (induction w)
  case Nil
  then show ?case by simp
next
  case (Cons c w)
  have "match_enum ((c # w) @ t) = None"
  proof (cases "match_enum ((c # w) @ t)")
    case None
    then show ?thesis .
  next
    case (Some r)
    from match_enum_word [OF Cons.prems(1,2) Some] Cons.prems(3) show ?thesis by simp
  qed
  moreover have "\<not> adjacent (digit_then CHR '')'') w"
    using Cons.prems(3) by (simp add: adjacent_Cons)
  ultimately show ?case using Cons by simp
qed

lemma scan_enum_hd_space:
  "t = [] \<or> is_space (hd t) \<Longrightarrow> scan_enum t = [] \<or> is_space (hd (scan_enum t))"
proof (cases t)
  case Nil
  then show ?thesis by simp
next
  case (Cons c cs)
  assume "t = [] \<or> is_space (hd t)"
  with Cons have "is_space c" by simp
  then have "\<not> is_digit c" using digit_not_space by auto
  then have "match_enum (c # cs) = None" by (rule match_enum_not_digit)
  with Cons \<open>is_space c\<close> show ?thesis by simp
qed

lemma first_word_scan_enum:
  assumes "\<not> adjacent (digit_then CHR '')'') (first_word r)"
  shows "first_word (scan_enum r) = first_word r"
proof (cases "first_word r = []")
  case True
  then have sp: "\<forall>c \<in> set r. is_space c" by (rule first_word_Nil_spaces)
  from scan_enum_spaces [OF sp, of "[]"] show ?thesis by simp
next
  case False
  let ?p = "takeWhile is_space r"
  let ?w = "first_word r"
  let ?t = "dropWhile (\<lambda>c. \<not> is_space c) (dropWhile is_space r)"
  have p: "\<forall>c \<in> set ?p. is_space c" by (auto dest: set_takeWhileD)
  have w: "\<forall>c \<in> set ?w. \<not> is_space c" by (rule first_word_chars)
  have t: "?t = [] \<or> is_space (hd ?t)" by (rule after_first_word)
  have "scan_enum (?p @ ?w @ ?t) = ?p @ ?w @ scan_enum ?t"
    using scan_enum_spaces [OF p] scan_enum_word [OF w t assms] by simp
  then have "first_word (scan_enum (?p @ ?w @ ?t)) = ?w"
    using first_word_decomp [OF p w False scan_enum_hd_space [OF t]] by simp
  moreover have "?p @ ?w @ ?t = r" using split_first_word [of r] by simp
  ultimately show ?thesis by simp
qed


lemma dropWhile_digit_takeWhile:
  "dropWhile is_digit (takeWhile (\<lambda>c. \<not> is_space c) cs)
   = takeWhile (\<lambda>c. \<not> is_space c) (dropWhile is_digit cs)"
  using digit_not_space by (induction cs) auto

lemma takeWhile_starts:
  "\<not> is_space x \<Longrightarrow>
   (\<exists>ds. takeWhile (\<lambda>c. \<not> is_space c) D = x # ds) \<longleftrightarrow> (\<exists>ds. D = x # ds)"
  by (cases D) (auto split: if_splits)

lemma match_bullet_iff:
  "(\<exists>y. match_bullet t = Some y) \<longleftrightarrow>
     (\<exists>c cs. t = c # cs \<and> (c = CHR ''*'' \<or> c = CHR ''-'' \<or>
        (is_digit c \<and> (\<exists>ds. dropWhile is_digit cs = CHR ''.'' # ds))))"
proof (cases t)
  case Nil
  then show ?thesis by (simp add: match_bullet_def)
next
  case (Cons c cs)
  then show ?thesis
    by (cases "dropWhile is_digit cs") (auto simp: match_bullet_def simp del: dropWhile_eq_Nil_conv)
qed

lemma match_enum_iff:
  "(\<exists>y. match_enum t = Some y) \<longleftrightarrow>
     (\<exists>c cs. t = c # cs \<and> is_digit c \<and> (\<exists>ds. dropWhile is_digit cs = CHR '')'' # ds))"
proof (cases t)
  case Nil
  then show ?thesis by (simp add: match_enum_def)
next
  case (Cons c cs)
  then show ?thesis
    by (cases "dropWhile is_digit cs") (auto simp: match_enum_def simp del: dropWhile_eq_Nil_conv)
qed

lemma match_fence_iff: "(\<exists>y. match_fence t = Some y) \<longleftrightarrow> prefix ''```'' t"
proof
  assume "\<exists>y. match_fence t = Some y"
  then have "take 3 t = ''```''" by (simp add: match_fence_def split: if_splits)
  then show "prefix ''```'' t" by (metis take_is_prefix)
next
  assume "prefix ''```'' t"
  then obtain r where "t = ''```'' @ r" by (auto simp: prefix_def)
  then show "\<exists>y. match_fence t = Some y" by (simp add: match_fence_def)
qed

lemma match_bullet_word:
  "(\<exists>y. match_bullet (takeWhile (\<lambda>c. \<not> is_space c) t) = Some y)
   \<longleftrightarrow> (\<exists>y. match_bullet t = Some y)"
proof (cases t)
  case Nil
  then show ?thesis by simp
next
  case (Cons c cs)
  show ?thesis
  proof (cases "is_space c")
    case True
    then have "c \<noteq> CHR ''*''" "c \<noteq> CHR ''-''" "\<not> is_digit c"
      using marker_chars_not_space digit_not_space by auto
    with True Cons show ?thesis by (simp add: match_bullet_def)
  next
    case False
    with Cons show ?thesis
      using takeWhile_starts [OF marker_chars_not_space(3), of "dropWhile is_digit cs"]
      by (simp add: match_bullet_iff dropWhile_digit_takeWhile)
  qed
qed

lemma match_enum_word_iff:
  "(\<exists>y. match_enum (takeWhile (\<lambda>c. \<not> is_space c) t) = Some y)
   \<longleftrightarrow> (\<exists>y. match_enum t = Some y)"
proof (cases t)
  case Nil
  then show ?thesis by simp
next
  case (Cons c cs)
  show ?thesis
  proof (cases "is_space c")
    case True
    then have "\<not> is_digit c" using digit_not_space by auto
    with True Cons show ?thesis by (simp add: match_enum_def)
  next
    case False
    with Cons show ?thesis
      using takeWhile_starts [OF marker_chars_not_space(4), of "dropWhile is_digit cs"]
      by (simp add: match_enum_iff dropWhile_digit_takeWhile)
  qed
qed

lemma match_fence_word:
  "(\<exists>y. match_fence (takeWhile (\<lambda>c. \<not> is_space c) t) = Some y)
   \<longleftrightarrow> (\<exists>y. match_fence t = Some y)"
proof
  assume "\<exists>y. match_fence (takeWhile (\<lambda>c. \<not> is_space c) t) = Some y"
  then have "prefix ''```'' (takeWhile (\<lambda>c. \<not> is_space c) t)" by (simp only: match_fence_iff)
  moreover have "prefix (takeWhile (\<lambda>c. \<not> is_space c) t) t" by (rule takeWhile_is_prefix)
  ultimately have "prefix ''```'' t" by (rule prefix_order.trans)
  then show "\<exists>y. match_fence t = Some y" by (simp only: match_fence_iff)
next
  assume "\<exists>y. match_fence t = Some y"
  then have "prefix ''```'' t" by (simp only: match_fence_iff)
  then obtain r where "t = ''```'' @ r" by (auto simp: prefix_def)
  then have "takeWhile (\<lambda>c. \<not> is_space c) t = ''```'' @ takeWhile (\<lambda>c. \<not> is_space c) r"
    using marker_chars_not_space(5) by simp
  then have "prefix ''```'' (takeWhile (\<lambda>c. \<not> is_space c) t)" by simp
  then show "\<exists>y. match_fence (takeWhile (\<lambda>c. \<not> is_space c) t) = Some y"
    by (simp only: match_fence_iff)
qed

lemma marker_first_word: "begins_with_marker (first_word s) \<longleftrightarrow> begins_with_marker (lstrip s)"
  by (simp add: begins_with_marker_def first_word_def lstrip_def
      match_bullet_word match_enum_word_iff match_fence_word)

lemma marker_not_space: "begins_with_marker s \<Longrightarrow> lstrip s = s"
proof -
  assume "begins_with_marker s"
  then have "s \<noteq> [] \<and> \<not> is_space (hd s)"
    using marker_chars_not_space digit_not_space
    by (auto simp: begins_with_marker_def match_bullet_iff match_enum_iff match_fence_iff prefix_def)
  then show ?thesis by (simp add: lstrip_id)
qed

lemma first_word_lstrip: "first_word (lstrip s) = first_word s"
  by (simp add: first_word_def lstrip_def)

lemma hd_space_append:
  "u = [] \<or> is_space (hd u) \<Longrightarrow> \<forall>c \<in> set w. is_space c
   \<Longrightarrow> u @ w = [] \<or> is_space (hd (u @ w))"
  by (cases u; cases w) auto

lemma first_word_append_spaces:
  assumes "\<forall>c \<in> set w. is_space c"
  shows "first_word (a @ w) = first_word a"
proof (cases "first_word a = []")
  case True
  then have "\<forall>c \<in> set (a @ w). is_space c" using first_word_Nil_spaces assms by auto
  then have e: "dropWhile is_space (a @ w) = []" by (simp add: dropWhile_eq_Nil_conv)
  have "first_word (a @ w) = []" unfolding first_word_def e by simp
  with True show ?thesis by simp
next
  case False
  have t: "dropWhile (\<lambda>c. \<not> is_space c) (dropWhile is_space a) @ w = []
        \<or> is_space (hd (dropWhile (\<lambda>c. \<not> is_space c) (dropWhile is_space a) @ w))"
    using after_first_word [of "dropWhile is_space a"] assms by (rule hd_space_append)
  have p: "\<forall>c \<in> set (takeWhile is_space a). is_space c" by (auto dest: set_takeWhileD)
  have eq: "a @ w = takeWhile is_space a @ first_word a
          @ (dropWhile (\<lambda>c. \<not> is_space c) (dropWhile is_space a) @ w)"
    using split_first_word [of a] by simp
  show ?thesis
    by (subst eq) (rule first_word_decomp [OF p first_word_chars False t])
qed

lemma first_word_rstrip: "first_word (rstrip s) = first_word s"
proof -
  have "\<forall>c \<in> set (rev (takeWhile is_space (rev s))). is_space c"
    by (auto dest: set_takeWhileD)
  from first_word_append_spaces [OF this, of "rstrip s"] rstrip_decomp [of s]
  show ?thesis by simp
qed

lemma first_word_strip: "first_word (strip s) = first_word s"
  by (simp add: strip_def first_word_lstrip first_word_rstrip)

lemma takeWhile_collapse_ws:
  "takeWhile (\<lambda>c. \<not> is_space c) (collapse_ws s) = takeWhile (\<lambda>c. \<not> is_space c) s"
proof (induction s rule: collapse_ws.induct)
  case 1
  then show ?case by simp
next
  case (2 c cs)
  have "is_space CHR '' ''" by (simp add: is_space_def)
  with 2 show ?case by (cases "is_space c") auto
qed

lemma dropWhile_collapse_ws_id:
  "s = [] \<or> \<not> is_space (hd s) \<Longrightarrow> dropWhile is_space (collapse_ws s) = collapse_ws s"
  by (cases s) auto

lemma dropWhile_collapse_ws:
  "dropWhile is_space (collapse_ws s) = collapse_ws (dropWhile is_space s)"
proof (cases s)
  case Nil
  then show ?thesis by simp
next
  case (Cons c cs)
  have sp: "is_space CHR '' ''" by (simp add: is_space_def)
  show ?thesis
  proof (cases "is_space c")
    case True
    have "dropWhile is_space cs = [] \<or> \<not> is_space (hd (dropWhile is_space cs))"
      using hd_dropWhile [of is_space cs] by blast
    then have "dropWhile is_space (collapse_ws (dropWhile is_space cs))
               = collapse_ws (dropWhile is_space cs)"
      by (rule dropWhile_collapse_ws_id)
    with True Cons sp show ?thesis by simp
  next
    case False
    with Cons show ?thesis by simp
  qed
qed

lemma first_word_collapse_ws: "first_word (collapse_ws s) = first_word s"
  by (simp add: first_word_def dropWhile_collapse_ws takeWhile_collapse_ws)

lemma hd_space_append_Cons:
  "u = [] \<or> is_space (hd u) \<Longrightarrow> is_space c
   \<Longrightarrow> u @ c # rest = [] \<or> is_space (hd (u @ c # rest))"
  by (cases u) auto

lemma first_word_append_space:
  assumes c: "is_space c"
  shows "first_word (l @ c # rest) = (if first_word l = [] then first_word rest else first_word l)"
proof (cases "first_word l = []")
  case True
  then have "\<forall>x \<in> set (l @ [c]). is_space x" using first_word_Nil_spaces c by auto
  then have "dropWhile is_space ((l @ [c]) @ rest) = dropWhile is_space rest"
    by (intro dropWhile_append2) auto
  then have "first_word (l @ c # rest) = first_word rest" by (simp add: first_word_def)
  with True show ?thesis by simp
next
  case False
  have p: "\<forall>x \<in> set (takeWhile is_space l). is_space x" by (auto dest: set_takeWhileD)
  have t: "dropWhile (\<lambda>c. \<not> is_space c) (dropWhile is_space l) @ c # rest = []
        \<or> is_space (hd (dropWhile (\<lambda>c. \<not> is_space c) (dropWhile is_space l) @ c # rest))"
    using after_first_word [of "dropWhile is_space l"] c by (rule hd_space_append_Cons)
  have eq: "l @ c # rest = takeWhile is_space l @ first_word l
          @ (dropWhile (\<lambda>c. \<not> is_space c) (dropWhile is_space l) @ c # rest)"
    using split_first_word [of l] by simp
  have "first_word (l @ c # rest) = first_word l"
    by (subst eq) (rule first_word_decomp [OF p first_word_chars False t])
  with False show ?thesis by simp
qed

lemma first_word_join_space:
  "first_word (join_space ls) = [] \<or> (\<exists>l \<in> set ls. first_word (join_space ls) = first_word l)"
proof (induction ls rule: join_space.induct)
  case 1
  then show ?case by (simp add: first_word_def)
next
  case (2 l)
  then show ?case by simp
next
  case (3 l m ls)
  have sp: "is_space CHR '' ''" by (simp add: is_space_def)
  show ?case
    using 3 first_word_append_space [OF sp, of l "join_space (m # ls)"]
    by (cases "first_word l = []") auto
qed

lemma flatten_marker:
  assumes "begins_with_marker (flatten ls)"
  shows "\<exists>l \<in> set ls. begins_with_marker (lstrip l)"
proof -
  have fw: "first_word (flatten ls) = first_word (join_space ls)"
    by (simp add: flatten_def first_word_strip first_word_collapse_ws)
  from assms have "begins_with_marker (lstrip (flatten ls))" by (simp add: marker_not_space)
  then have m: "begins_with_marker (first_word (join_space ls))"
    by (simp add: marker_first_word [symmetric] fw)
  then have "first_word (join_space ls) \<noteq> []"
    by (auto simp: begins_with_marker_def match_bullet_def match_enum_def match_fence_def)
  with first_word_join_space [of ls] obtain l
    where "l \<in> set ls" and "first_word (join_space ls) = first_word l" by auto
  with m show ?thesis by (auto simp: marker_first_word)
qed


lemma sub_bullet_pattern_behind: "sub_bullet_pattern s = scan_enum (behind_marker s)"
proof (cases "leading_marker_rest s")
  case (Some r)
  then show ?thesis by (simp add: behind_marker_def sub_bullet_pattern_rest)
next
  case None
  then have "match_bullet s = None" "match_enum s = None" "match_fence s = None"
    by (auto simp: leading_marker_rest_def split: option.splits)
  with None show ?thesis
    by (cases s) (simp_all add: behind_marker_def sub_bullet_pattern_def)
qed

lemma single_marker_survivor:
  assumes "single_marker s"
  shows "\<not> begins_with_marker (lstrip (sub_bullet_pattern s))"
proof -
  let ?r = "behind_marker s"
  from assms have a: "\<not> begins_with_marker (lstrip ?r)"
    and b: "\<not> adjacent (digit_then CHR '')'') (first_word ?r)"
    by (simp_all add: single_marker_def)
  have "first_word (scan_enum ?r) = first_word ?r" using b by (rule first_word_scan_enum)
  then have "begins_with_marker (lstrip (scan_enum ?r)) \<longleftrightarrow> begins_with_marker (lstrip ?r)"
    using marker_first_word [of "scan_enum ?r"] marker_first_word [of ?r] by simp
  with a show ?thesis by (simp add: sub_bullet_pattern_behind)
qed

section \<open>The character budget\<close>

lemma enforce_length:
  assumes "0 < b"
  shows "int (length (enforce_character_limit inp b)) \<le> b + 1"
proof (cases "int (length inp) \<le> b")
  case True
  then show ?thesis by (simp add: enforce_character_limit_def)
next
  case False
  have "int (length (rstrip (slice_to inp b))) \<le> b"
    using length_rstrip_le [of "slice_to inp b"] length_slice_to_pos [of b inp] assms
    by linarith
  then show ?thesis using False by (simp add: enforce_character_limit_def Let_def)
qed

text \<open>
  C1. For every text and every budget \<open>b > 0\<close> the result of
  \<open>enforce_character_limit\<close> has at most \<open>b + 1\<close> characters, and a text of at most
  \<open>b\<close> characters is returned unchanged.
\<close>

theorem enforce_character_limit_budget:
  "(0 < b \<longrightarrow> int (length (enforce_character_limit inp b)) \<le> b + 1) \<and>
   (int (length inp) \<le> b \<longrightarrow> enforce_character_limit inp b = inp)"
  using enforce_length [of b inp] by (simp add: enforce_character_limit_def)

theorem enforce_character_limit_budget_witness:
  "(0::int) < 6 \<and> int (length (enforce_character_limit ''hello world'' 6)) \<le> 6 + 1 \<and>
   int (length ''hello'') \<le> 6 \<and> enforce_character_limit ''hello'' 6 = ''hello''"
  using enforce_character_limit_budget [of 6 "''hello world''"]
    enforce_character_limit_budget [of 6 "''hello''"]
  by simp

text \<open>
  C6. With the budget \<open>-1\<close> the slice \<open>text[:-1]\<close> is the text without its last
  character, not the empty string: \<open>"hello"\<close> is cut to \<open>"hell"\<close> and comes back
  as \<open>"hell."\<close>.
\<close>

theorem enforce_character_limit_negative_budget:
  "slice_to ''hello'' (- 1) = ''hell'' \<and> enforce_character_limit ''hello'' (- 1) = ''hell.''"
  by (simp add: enforce_character_limit_def slice_to_def rstrip_def endswith_period_def
      is_space_def)

text \<open>
  C10. For every text and every budget \<open>b \<ge> 0\<close>, enforcing the limit a second time
  changes nothing.
\<close>

theorem enforce_character_limit_idempotent:
  assumes b: "0 \<le> b"
  shows "enforce_character_limit (enforce_character_limit inp b) b
         = enforce_character_limit inp b"
proof (cases "int (length inp) \<le> b")
  case True
  then show ?thesis by (simp add: enforce_character_limit_def)
next
  case long: False
  define t where "t = rstrip (slice_to inp b)"
  have tlen: "int (length t) \<le> b"
    using length_rstrip_le [of "slice_to inp b"] length_slice_to_pos [OF b, of inp]
    unfolding t_def by linarith
  show ?thesis
  proof (cases "endswith_period t")
    case True
    then have "enforce_character_limit inp b = t"
      using long by (simp add: enforce_character_limit_def t_def)
    then show ?thesis using tlen by (simp add: enforce_character_limit_def)
  next
    case noperiod: False
    then have r: "enforce_character_limit inp b = t @ ''.''"
      using long by (simp add: enforce_character_limit_def t_def)
    show ?thesis
    proof (cases "int (length (t @ ''.'')) \<le> b")
      case True
      then show ?thesis unfolding r by (simp add: enforce_character_limit_def)
    next
      case False
      then have full: "length t = nat b" using tlen by simp
      then have sl: "slice_to (t @ ''.'') b = t" using b by (simp add: slice_to_def)
      have "rstrip t = t" unfolding t_def by (rule rstrip_idem)
      then show ?thesis unfolding r using False noperiod sl
        by (simp add: enforce_character_limit_def)
    qed
  qed
qed

theorem enforce_character_limit_idempotent_witness:
  "(0::int) \<le> 6 \<and>
   enforce_character_limit (enforce_character_limit ''hello world'' 6) 6 = ''hello.'' \<and>
   enforce_character_limit ''hello world'' 6 = ''hello.''"
proof -
  have e: "enforce_character_limit ''hello world'' 6 = ''hello.''"
    by (simp add: enforce_character_limit_def slice_to_def rstrip_def endswith_period_def
        is_space_def)
  show ?thesis
    using enforce_character_limit_idempotent [of 6 "''hello world''"] e by simp
qed

section \<open>Stripping bullets\<close>

text \<open>
  C3. The alternative for a number with a closing parenthesis is not anchored, and the
  substitution is global: such a marker is removed in the middle of a line, and two
  of them at the start of a line are both removed.
\<close>

theorem strip_bullet_points_removes_inline_enum:
  "strip_bullet_points ''a 1) b'' = ''a b'' \<and> strip_bullet_points ''1) 2) x'' = ''x''"
  by code_simp




text \<open>
  C5, as stated, fails: the output for \<open>"- - a"\<close> is \<open>"- a"\<close>, which begins with a
  hyphen marker; and a line that begins with no marker, two backticks, \<open>1)\<close> and a
  third backtick, comes out beginning with a code fence.
\<close>

theorem strip_bullet_points_marker_survives:
  "strip_bullet_points ''- - a'' = ''- a'' \<and> begins_with_marker (strip_bullet_points ''- - a'') \<and>
   \<not> begins_with_marker ''``1)`x'' \<and> strip_bullet_points ''``1)`x'' = ''```x'' \<and>
   begins_with_marker (strip_bullet_points ''``1)`x'')"
  by code_simp

text \<open>
  C5, amended. For every input in which every line carries a single marker (trimmed
  and with its one leading marker, if any, removed, it neither begins after
  whitespace with a further recognised marker nor has a digit directly followed by a
  closing parenthesis in its first word), the output of \<open>strip_bullet_points\<close> does
  not begin with a recognised marker, and neither does any line that survives the
  substitution.
\<close>

theorem strip_bullet_points_no_leading_marker:
  assumes "\<forall>line \<in> set (splitlines x). single_marker (strip line)"
  shows "\<not> begins_with_marker (strip_bullet_points x) \<and>
         (\<forall>line \<in> set (splitlines x). \<not> begins_with_marker (sub_bullet_pattern (strip line)))"
proof -
  have each: "\<not> begins_with_marker (lstrip (sub_bullet_pattern (strip line)))"
    if "line \<in> set (splitlines x)" for line
    using assms that by (simp add: single_marker_survivor)
  have lines: "\<forall>line \<in> set (splitlines x). \<not> begins_with_marker (sub_bullet_pattern (strip line))"
  proof
    fix line assume l: "line \<in> set (splitlines x)"
    show "\<not> begins_with_marker (sub_bullet_pattern (strip line))"
    proof
      assume m: "begins_with_marker (sub_bullet_pattern (strip line))"
      then have "lstrip (sub_bullet_pattern (strip line)) = sub_bullet_pattern (strip line)"
        by (rule marker_not_space)
      with m each [OF l] show False by simp
    qed
  qed
  have "\<not> begins_with_marker (strip_bullet_points x)"
  proof
    assume "begins_with_marker (strip_bullet_points x)"
    then have "begins_with_marker (flatten (filter (\<lambda>new_line. new_line \<noteq> [])
                 (map (\<lambda>line. sub_bullet_pattern (strip line)) (splitlines x))))"
      by (simp add: strip_bullet_points_def)
    from flatten_marker [OF this] obtain line
      where "line \<in> set (splitlines x)"
        and "begins_with_marker (lstrip (sub_bullet_pattern (strip line)))"
      by auto
    with each show False by blast
  qed
  with lines show ?thesis by simp
qed

theorem strip_bullet_points_no_leading_marker_witness:
  "list_all (\<lambda>line. single_marker (strip line)) (splitlines inline_list) \<and>
   strip_bullet_points inline_list = ''first item second (see above) plain text'' \<and>
   \<not> begins_with_marker (strip_bullet_points inline_list)"
proof -
  have h: "list_all (\<lambda>line. single_marker (strip line)) (splitlines inline_list)"
    by code_simp
  then have "\<forall>line \<in> set (splitlines inline_list). single_marker (strip line)"
    unfolding list_all_iff .
  moreover have "strip_bullet_points inline_list = ''first item second (see above) plain text''"
    by code_simp
  ultimately show ?thesis
    using strip_bullet_points_no_leading_marker [of inline_list] h by simp
qed

section \<open>Disclaimer lines\<close>

text \<open>
  C7, as stated, fails when lines are the pieces between newline characters: in
  \<open>"rewrite a\x0bkeep\nthe article"\<close> both such lines hold a keyword, but
  \<open>splitlines\<close> also breaks at the vertical tab, the piece \<open>"keep"\<close> is a line of
  its own, and it is returned.
\<close>

theorem remove_disclaimers_lines_by_newline:
  "newline_lines tab_broken = [''rewrite a'' @ [CHR 0x0B] @ ''keep'', ''the article''] \<and>
   list_all (\<lambda>line. list_ex (\<lambda>kw. sublist kw (strip (lower line)))
               [''rewrite'', ''rewriting'', ''disclaimer'', ''the article''])
     (newline_lines tab_broken) \<and>
   remove_disclaimers_and_mentions tab_broken = ''keep''"
  by code_simp

text \<open>
  C7, amended. If every line of the input, as \<open>splitlines\<close> delimits lines (at
  \<open>\n\<close>, \<open>\r\<close>, \<open>\r\n\<close>, \<open>\x0b\<close>, \<open>\x0c\<close>, \<open>\x1c\<close>, \<open>\x1d\<close>, \<open>\x1e\<close> and
  \<open>\x85\<close>), lower-cased and trimmed, contains one of the four marker substrings,
  \<open>remove_disclaimers_and_mentions\<close> returns the empty string.
\<close>

theorem remove_disclaimers_all_lines_marked:
  assumes "\<forall>line \<in> set (splitlines inp).
             \<exists>kw \<in> set [''rewrite'', ''rewriting'', ''disclaimer'', ''the article''].
               sublist kw (strip (lower line))"
  shows "remove_disclaimers_and_mentions inp = []"
proof -
  have "filter (\<lambda>line. \<not> mentions_keyword line) (splitlines inp) = []"
    using assms
    by (auto simp: filter_empty_conv mentions_keyword_def marker_keywords_def list_ex_iff)
  then show ?thesis
    by (simp add: remove_disclaimers_and_mentions_def flatten_Nil)
qed

theorem remove_disclaimers_all_lines_marked_witness:
  "length (splitlines marked_lines) = 3 \<and>
   list_all (\<lambda>line. list_ex (\<lambda>kw. sublist kw (strip (lower line)))
               [''rewrite'', ''rewriting'', ''disclaimer'', ''the article''])
     (splitlines marked_lines) \<and>
   remove_disclaimers_and_mentions marked_lines = []"
proof -
  have n: "length (splitlines marked_lines) = 3"
    by code_simp
  have h: "list_all (\<lambda>line. list_ex (\<lambda>kw. sublist kw (strip (lower line)))
               [''rewrite'', ''rewriting'', ''disclaimer'', ''the article''])
     (splitlines marked_lines)"
    by code_simp
  then have "\<forall>line \<in> set (splitlines marked_lines).
      \<exists>kw \<in> set [''rewrite'', ''rewriting'', ''disclaimer'', ''the article''].
        sublist kw (strip (lower line))"
    unfolding list_all_iff list_ex_iff .
  from remove_disclaimers_all_lines_marked [OF this] h n show ?thesis by blast
qed

section \<open>Shape of the final summary\<close>

text \<open>
  C9. Whatever the completion service returns and whatever the budget, a summary that
  the pipeline returns contains no newline, no two neighbouring whitespace
  characters, and neither starts nor ends with whitespace.
\<close>

theorem final_summary_single_line:
  assumes "fst (summarize_text_with_llama run inp b m st) = Inr s"
  shows "CHR 0x0A \<notin> set s \<and> \<not> adjacent two_spaces s \<and>
         (s \<noteq> [] \<longrightarrow> \<not> is_space (hd s) \<and> \<not> is_space (last s))"
proof -
  from summarize_result [OF assms] obtain x
    where "s = enforce_character_limit (strip_bullet_points x) b" ..
  then have "tidy s" by (simp add: enforce_tidy strip_bullet_points_tidy)
  then show ?thesis by (rule tidy_claim)
qed

theorem final_summary_single_line_witness:
  "fst (summarize_text_with_llama scripted ''Article'' 20 ''m'' (fresh [messy_first, messy_second]))
     = Inr ''Final text spread ov.'' \<and>
   CHR 0x0A \<notin> set ''Final text spread ov.'' \<and> \<not> adjacent two_spaces ''Final text spread ov.''"
proof -
  have h: "fst (summarize_text_with_llama scripted ''Article'' 20 ''m'' (fresh [messy_first, messy_second]))
     = Inr ''Final text spread ov.''"
    by code_simp
  from final_summary_single_line [OF h] h show ?thesis by simp
qed

section \<open>The second completion call\<close>

text \<open>
  C2, as stated, fails for a first-pass output that contains \<open>"- one\n- two"\<close> on
  lines that mention a disclaimer keyword: both lines are dropped before the
  detection, and the completion service is invoked once.
\<close>

theorem second_call_skipped_for_disclaimed_list:
  "sublist dash_list disclaimed_list \<and>
   fst (pass_one_summary scripted article DEFAULT_MAX_CHARS DEFAULT_MODEL_NAME
          (fresh [disclaimed_list, ''One and two.''])) = Inr disclaimed_list \<and>
   length (new_calls scripted article DEFAULT_MAX_CHARS DEFAULT_MODEL_NAME
             (fresh [disclaimed_list, ''One and two.''])) = 1"
  by code_simp

text \<open>
  C2, amended. One run invokes the completion service once or twice. When the first
  call succeeds with output \<open>fp\<close>, the second call is made exactly when the
  disclaimer-cleaned \<open>fp\<close> contains an asterisk, a hyphen or a digit followed by a
  period; it is made when \<open>fp\<close> contains \<open>"- one\n- two"\<close> and none of the four
  keywords, and it is not made for \<open>"Plain sentence with no markers."\<close>.
\<close>

theorem two_pass_trigger:
  "calls (snd (summarize_text_with_llama run inp b m st)) = calls st @ new_calls run inp b m st \<and>
   1 \<le> length (new_calls run inp b m st) \<and> length (new_calls run inp b m st) \<le> 2 \<and>
   (\<forall>fp. fst (pass_one_summary run inp b m st) = Inr fp \<longrightarrow>
      (length (new_calls run inp b m st) = 2
         \<longleftrightarrow> marker_anywhere (remove_disclaimers_and_mentions fp)) \<and>
      (sublist dash_list fp \<and> \<not> list_ex (\<lambda>kw. sublist kw (lower fp)) marker_keywords
         \<longrightarrow> length (new_calls run inp b m st) = 2) \<and>
      (fp = ''Plain sentence with no markers.'' \<longrightarrow> length (new_calls run inp b m st) = 1))"
proof (intro conjI allI impI)
  show "calls (snd (summarize_text_with_llama run inp b m st)) = calls st @ new_calls run inp b m st"
    unfolding new_calls_eq by (rule summarize_calls)
  show "1 \<le> length (new_calls run inp b m st)"
    unfolding new_calls_eq by simp
  show "length (new_calls run inp b m st) \<le> 2"
    unfolding new_calls_eq by (simp split: sum.splits)
next
  fix fp assume fp: "fst (pass_one_summary run inp b m st) = Inr fp"
  then show "length (new_calls run inp b m st) = 2
         \<longleftrightarrow> marker_anywhere (remove_disclaimers_and_mentions fp)"
    unfolding new_calls_eq by (simp add: has_bullets_iff)
next
  fix fp assume fp: "fst (pass_one_summary run inp b m st) = Inr fp"
    and h: "sublist dash_list fp \<and> \<not> list_ex (\<lambda>kw. sublist kw (lower fp)) marker_keywords"
  have "CHR ''-'' \<in> set dash_list" by (simp add: dash_list_def)
  with h have "CHR ''-'' \<in> set fp" using set_mono_sublist by blast
  with h have "has_bullets (remove_disclaimers_and_mentions fp)" by (simp add: hyphen_survives)
  with fp show "length (new_calls run inp b m st) = 2"
    unfolding new_calls_eq by simp
next
  fix fp assume fp: "fst (pass_one_summary run inp b m st) = Inr fp"
    and p: "fp = ''Plain sentence with no markers.''"
  have "\<not> has_bullets (remove_disclaimers_and_mentions ''Plain sentence with no markers.'')"
    by code_simp
  with fp p show "length (new_calls run inp b m st) = 1"
    unfolding new_calls_eq by simp
qed

theorem two_pass_trigger_witness:
  "fst (pass_one_summary scripted article 50 DEFAULT_MODEL_NAME (fresh [dash_list, ''One and two.'']))
     = Inr dash_list \<and>
   sublist dash_list dash_list \<and>
   \<not> list_ex (\<lambda>kw. sublist kw (lower dash_list)) marker_keywords \<and>
   length (new_calls scripted article 50 DEFAULT_MODEL_NAME (fresh [dash_list, ''One and two.''])) = 2"
proof -
  have a: "fst (pass_one_summary scripted article 50 DEFAULT_MODEL_NAME (fresh [dash_list, ''One and two.'']))
     = Inr dash_list"
    by code_simp
  have b: "\<not> list_ex (\<lambda>kw. sublist kw (lower dash_list)) marker_keywords"
    by code_simp
  have c: "sublist dash_list dash_list" by simp
  from two_pass_trigger [of scripted article 50 DEFAULT_MODEL_NAME "fresh [dash_list, ''One and two.'']"]
    a b c show ?thesis by blast
qed

section \<open>The worked example\<close>

text \<open>
  C8, as stated, fails in its character count: the final output
  \<open>"Summary about A and B."\<close> has 22 characters, not 38.
\<close>

theorem end_to_end_example_not_38_characters:
  "fst (summarize_text_with_llama scripted article 50 DEFAULT_MODEL_NAME
          (fresh [first_output, second_output])) = Inr ''Summary about A and B.'' \<and>
   length ''Summary about A and B.'' \<noteq> 38"
  by code_simp

text \<open>
  C8, amended. With budget 50, a first call that returns the two bullet lines and a
  second call that returns \<open>"Summary about A and B."\<close>, the pipeline detects bullets,
  makes both calls and returns exactly \<open>"Summary about A and B."\<close>: 22 characters,
  under the budget, unchanged by the limit.
\<close>

theorem end_to_end_example:
  assumes r1: "run (world st) [''ollama'', ''run'', m] (prompt_1 inp 50)
                 = (\<lparr>returncode = 0, stdout = first_output, stderr = e1\<rparr>, w1)"
    and r2: "run w1 [''ollama'', ''run'', m]
                 (prompt_2 (remove_disclaimers_and_mentions first_output) 50)
                 = (\<lparr>returncode = 0, stdout = second_output, stderr = e2\<rparr>, w2)"
  shows "has_bullets (remove_disclaimers_and_mentions first_output) \<and>
         length (new_calls run inp 50 m st) = 2 \<and>
         fst (summarize_text_with_llama run inp 50 m st) = Inr ''Summary about A and B.'' \<and>
         length ''Summary about A and B.'' = 22 \<and>
         strip_bullet_points (remove_disclaimers_and_mentions second_output)
           = ''Summary about A and B.''"
proof -
  have f1: "strip first_output = first_output" by code_simp
  have f2: "has_bullets (remove_disclaimers_and_mentions first_output)" by code_simp
  have f3: "strip second_output = second_output" by code_simp
  have f4: "strip_bullet_points (remove_disclaimers_and_mentions second_output)
              = ''Summary about A and B.''" by code_simp
  have f5: "enforce_character_limit ''Summary about A and B.'' 50 = ''Summary about A and B.''"
    by (simp add: enforce_character_limit_def)
  have p1: "pass_one_summary run inp 50 m st
            = (Inr first_output,
               st\<lparr>world := w1, calls := calls st @ [([''ollama'', ''run'', m], prompt_1 inp 50)]\<rparr>)"
    using r1 f1 by (simp add: pass_one_summary_def llama_run_def)
  have p2: "fst (pass_two_rewrite run (remove_disclaimers_and_mentions first_output) 50 m
              (st\<lparr>world := w1, calls := calls st @ [([''ollama'', ''run'', m], prompt_1 inp 50)]\<rparr>))
            = Inr second_output"
    using r2 f3 by (simp add: pass_two_rewrite_def llama_run_def Let_def)
  obtain st2 where p2': "pass_two_rewrite run (remove_disclaimers_and_mentions first_output) 50 m
              (st\<lparr>world := w1, calls := calls st @ [([''ollama'', ''run'', m], prompt_1 inp 50)]\<rparr>)
            = (Inr second_output, st2)"
    using p2 by (metis prod.collapse)
  have "fst (summarize_text_with_llama run inp 50 m st) = Inr ''Summary about A and B.''"
    using f2 f4 f5 by (simp add: summarize_text_with_llama_def Let_def p1 p2')
  moreover have "length (new_calls run inp 50 m st) = 2"
    unfolding new_calls_eq using p1 f2 by simp
  ultimately show ?thesis using f2 f4 by simp
qed

theorem end_to_end_example_witness:
  "scripted (world (fresh [first_output, second_output])) [''ollama'', ''run'', DEFAULT_MODEL_NAME]
       (prompt_1 article 50)
     = (\<lparr>returncode = 0, stdout = first_output, stderr = []\<rparr>, [second_output]) \<and>
   scripted [second_output] [''ollama'', ''run'', DEFAULT_MODEL_NAME]
       (prompt_2 (remove_disclaimers_and_mentions first_output) 50)
     = (\<lparr>returncode = 0, stdout = second_output, stderr = []\<rparr>, []) \<and>
   fst (summarize_text_with_llama scripted article 50 DEFAULT_MODEL_NAME
          (fresh [first_output, second_output])) = Inr ''Summary about A and B.'' \<and>
   length (new_calls scripted article 50 DEFAULT_MODEL_NAME (fresh [first_output, second_output])) = 2"
proof -
  have a: "scripted (world (fresh [first_output, second_output])) [''ollama'', ''run'', DEFAULT_MODEL_NAME]
       (prompt_1 article 50)
     = (\<lparr>returncode = 0, stdout = first_output, stderr = []\<rparr>, [second_output])"
    by (simp add: scripted_def fresh_def)
  have b: "scripted [second_output] [''ollama'', ''run'', DEFAULT_MODEL_NAME]
       (prompt_2 (remove_disclaimers_and_mentions first_output) 50)
     = (\<lparr>returncode = 0, stdout = second_output, stderr = []\<rparr>, [])"
    by (simp add: scripted_def)
  from end_to_end_example [where run = scripted and inp = article and m = DEFAULT_MODEL_NAME
      and st = "fresh [first_output, second_output]", OF a b] a b
  show ?thesis by simp
qed

end
